theory Spec2Isabelle
  imports Main "HOL-Library.Multiset"
begin

section \<open>Column order: \<open>reorderColumn\<close> (Table.tsx, lines 108-119)\<close>

text \<open>
  The source:
  \<^verbatim>\<open>
  const reorderColumn = (draggedColumnId: string, targetColumnId: string,
                         columnOrder: string[]): ColumnOrderState => {
    columnOrder.splice(
      columnOrder.indexOf(targetColumnId),
      0,
      columnOrder.splice(columnOrder.indexOf(draggedColumnId), 1)[0] as string
    );
    return [...columnOrder];
  };
  \<close>
  JavaScript evaluates the arguments of the outer \<open>splice\<close> from left to right: the index
  of the target is taken in the array as it is on entry, then the inner \<open>splice\<close> removes
  the dragged id, and only then the outer \<open>splice\<close> inserts.

  A slot of a \<open>string[]\<close> holds a string; reading index 0 of an empty array gives
  \<open>undefined\<close>, which the cast \<open>as string\<close> does not change. Both are values of
  \<open>js_string\<close>.
\<close>

datatype js_string = Str string | Undefined

text \<open>\<open>Array.prototype.indexOf\<close>: the first index holding the value, \<open>-1\<close> when there is none.\<close>

fun indexOf_from :: "nat \<Rightarrow> 'a list \<Rightarrow> 'a \<Rightarrow> int" where
  "indexOf_from k [] x = - 1"
| "indexOf_from k (y # ys) x = (if y = x then int k else indexOf_from (Suc k) ys x)"

definition indexOf :: "'a list \<Rightarrow> 'a \<Rightarrow> int" where
  "indexOf xs x = indexOf_from 0 xs x"

text \<open>
  \<open>Array.prototype.splice(start, deleteCount, ...items)\<close> on the contents of an array: a
  negative \<open>start\<close> counts from the end, both numbers are clamped to the array. The result
  is the pair of the removed elements and the new contents.
\<close>

definition splice :: "'a list \<Rightarrow> int \<Rightarrow> int \<Rightarrow> 'a list \<Rightarrow> 'a list \<times> 'a list" where
  "splice xs start deleteCount items =
     (let len = int (length xs);
          actualStart = (if start < 0 then max (len + start) 0 else min start len);
          actualDeleteCount = min (max deleteCount 0) (len - actualStart);
          a = nat actualStart;
          k = nat actualDeleteCount
      in (take k (drop a xs), take a xs @ items @ drop (a + k) xs))"

text \<open>\<open>removed[0]\<close>: the first element, \<open>undefined\<close> when the array is empty.\<close>

definition first_elem :: "js_string list \<Rightarrow> js_string" where
  "first_elem xs = (case xs of [] \<Rightarrow> Undefined | x # _ \<Rightarrow> x)"

text \<open>
  Arrays are objects: \<open>columnOrder\<close> is a reference and \<open>splice\<close> changes the object it
  points to. The store maps references to array contents; \<open>next_ref\<close> is the next
  reference to hand out, every reference in use is below it.
\<close>

record store =
  arrays :: "nat \<Rightarrow> js_string list"
  next_ref :: nat

definition splice_at :: "nat \<Rightarrow> int \<Rightarrow> int \<Rightarrow> js_string list \<Rightarrow> store \<Rightarrow> js_string list \<times> store" where
  "splice_at r start deleteCount items h =
     (let (removed, xs') = splice (arrays h r) start deleteCount items
      in (removed, h\<lparr>arrays := (arrays h)(r := xs')\<rparr>))"

text \<open>The spread \<open>[...columnOrder]\<close>: a new array with the same elements.\<close>

definition spread :: "nat \<Rightarrow> store \<Rightarrow> nat \<times> store" where
  "spread r h =
     (next_ref h, h\<lparr>arrays := (arrays h)(next_ref h := arrays h r), next_ref := Suc (next_ref h)\<rparr>)"

definition reorderColumn :: "string \<Rightarrow> string \<Rightarrow> nat \<Rightarrow> store \<Rightarrow> nat \<times> store" where
  "reorderColumn draggedColumnId targetColumnId columnOrder h =
     (let targetIndex = indexOf (arrays h columnOrder) (Str targetColumnId);
          draggedIndex = indexOf (arrays h columnOrder) (Str draggedColumnId);
          (removed, h1) = splice_at columnOrder draggedIndex 1 [] h;
          (_, h2) = splice_at columnOrder targetIndex 0 [first_elem removed] h1
      in spread columnOrder h2)"

text \<open>
  The words of the specification, "removes \<open>draggedId\<close> from its current position and
  reinserts it immediately before \<open>targetId\<close>'s current position", as a function on
  sequences, for comparison with the code.
\<close>

definition reorder_spec :: "'a \<Rightarrow> 'a \<Rightarrow> 'a list \<Rightarrow> 'a list" where
  "reorder_spec d t xs =
     (if d = t then xs
      else let rest = remove1 d xs
           in takeWhile (\<lambda>x. x \<noteq> t) rest @ [d] @ dropWhile (\<lambda>x. x \<noteq> t) rest)"

text \<open>The array used in the worked examples: \<open>["a", "b", "c"]\<close> at reference 0.\<close>

definition example_store :: store where
  "example_store =
     \<lparr>arrays = (\<lambda>_. [])(0 := [Str ''a'', Str ''b'', Str ''c'']), next_ref = 1\<rparr>"

section \<open>Columns and the render pass (Table.tsx, lines 62, 104-106, 120-123)\<close>

text \<open>
  Modelled from the spec: the column definition (\<open>TableColumn\<close> of \<open>cdm/FolderModel\<close> is not
  part of the sources at hand). The specification's data model gives a column an id, a
  key, a width with its bounds and a visibility flag.
\<close>

record column =
  column_id :: string
  column_key :: string
  width :: int
  minWidth :: int
  maxWidth :: int
  visible :: bool

text \<open>
  Modelled from the spec: \<open>columnsInfo.getValueOfAllColumnsAsociatedWith("id")\<close>, a helper of
  the column store that is not part of the sources at hand; "resynchronize its order
  sequence from the registry" makes it the ids of the registry's columns, in order.
\<close>

definition getValueOfAllColumnsAsociatedWith_id :: "column list \<Rightarrow> js_string list" where
  "getValueOfAllColumnsAsociatedWith_id columns = map (\<lambda>c. Str (column_id c)) columns"

text \<open>
  \<^verbatim>\<open>
  // Niveling number of columns
  if (columnOrder.length !== columns.length) {
    setColumnOrder(columnsInfo.getValueOfAllColumnsAsociatedWith("id"));
  }
  \<close>
  runs in the body of the component, that is on every render. The function gives the
  value of the \<open>columnOrder\<close> state after the pass.
\<close>

definition niveling_columnOrder :: "column list \<Rightarrow> js_string list \<Rightarrow> js_string list" where
  "niveling_columnOrder columns columnOrder =
     (if length columnOrder \<noteq> length columns
      then getValueOfAllColumnsAsociatedWith_id columns
      else columnOrder)"

section \<open>Column sizing and the commit timer (Table.tsx, lines 45-52, 99-102, 204-236)\<close>

text \<open>
  \<open>DatabaseLimits\<close> (of \<open>helpers/Constants\<close>) is not part of the sources at hand; its two
  constants are taken as parameters. \<open>defaultColumn\<close> gives every column its size bounds.
\<close>

record database_limits =
  MIN_COLUMN_HEIGHT :: int
  MAX_COLUMN_HEIGHT :: int

record column_defaults =
  minSize :: int
  maxSize :: int
  enableResizing :: bool
  sortingFn :: string

definition defaultColumn :: "database_limits \<Rightarrow> column_defaults" where
  "defaultColumn limits =
     \<lparr>minSize = MIN_COLUMN_HEIGHT limits, maxSize = MAX_COLUMN_HEIGHT limits,
      enableResizing = True, sortingFn = ''alphanumeric''\<rparr>"

text \<open>
  A column of the worked examples: its size bounds are those of \<open>defaultColumn\<close>.
\<close>

definition example_column :: "database_limits \<Rightarrow> string \<Rightarrow> int \<Rightarrow> column" where
  "example_column limits name w =
     \<lparr>column_id = name, column_key = name, width = w,
      minWidth = minSize (defaultColumn limits), maxWidth = maxSize (defaultColumn limits),
      visible = True\<rparr>"

text \<open>
  Widths and offsets are pixel counts, modelled as integers. \<open>ColumnSizingState\<close> is a
  \<open>Record<string, number>\<close>. \<open>columnSizingInfo\<close> holds the three fields the handler reads:
  \<open>isResizingColumn\<close> is \<open>false\<close> (here \<open>None\<close>) or a column id, \<open>deltaOffset\<close> is \<open>null\<close>
  (here \<open>None\<close>) or a number, \<open>columnSizingStart\<close> is a list of pairs of a column id and
  its width when the drag began.
\<close>

type_synonym ColumnSizingState = "string \<rightharpoonup> int"

record columnSizingInfo =
  isResizingColumn :: "string option"
  deltaOffset :: "int option"
  columnSizingStart :: "(string \<times> int) list"

datatype updater = Updater_function "ColumnSizingState \<Rightarrow> ColumnSizingState"
  | Updater_value ColumnSizingState

datatype error = TypeError

text \<open>
  A pending timeout of the runtime: its handle, the time it is due, and the arguments its
  callback passes to \<open>columnActions.alterColumnSize\<close>.
\<close>

record timer =
  timer_id :: nat
  due :: nat
  commit_column :: string
  commit_width :: int

text \<open>
  \<^verbatim>\<open>
  const [columnSizing, setColumnSizing] = React.useState(getInitialColumnSizing(columns));
  const [persistSizingTimeout, setPersistSizingTimeout] = React.useState(null);
  \<close>
  A \<open>useState\<close> hook keeps a value between renders. Each render reads it into a constant,
  and the handler defined in that render closes over the constant: \<open>persistSizingTimeout\<close>
  and \<open>columnSizing\<close> are what the closure of the last render holds. A setter writes the
  hook's value, \<open>hook_persistSizingTimeout\<close> and \<open>hook_columnSizing\<close>; the constants of a
  closure never change, only the next render reads the new value.

  The rest of the state: the clock in milliseconds, the pending timeouts in the order
  they were set, the next handle (\<open>setTimeout\<close> returns positive integers; \<open>null\<close> is
  \<open>None\<close>), the columns of the column store, the calls of \<open>alterColumnSize\<close> made so
  far, and the errors no handler caught.
\<close>

record table_state =
  now :: nat
  timers :: "timer list"
  next_timer_id :: nat
  persistSizingTimeout :: "nat option"
  columnSizing :: ColumnSizingState
  hook_persistSizingTimeout :: "nat option"
  hook_columnSizing :: ColumnSizingState
  columns :: "column list"
  commits :: "(string \<times> int) list"
  uncaught :: "error list"

text \<open>A render: the constants of the new closure are the values of the hooks.\<close>

definition render :: "table_state \<Rightarrow> table_state" where
  "render s =
     s\<lparr>persistSizingTimeout := hook_persistSizingTimeout s, columnSizing := hook_columnSizing s\<rparr>"

definition setTimeout :: "string \<times> int \<Rightarrow> nat \<Rightarrow> table_state \<Rightarrow> nat \<times> table_state" where
  "setTimeout args delay s =
     (next_timer_id s,
      s\<lparr>timers := timers s @
            [\<lparr>timer_id = next_timer_id s, due = now s + delay,
              commit_column = fst args, commit_width = snd args\<rparr>],
        next_timer_id := Suc (next_timer_id s)\<rparr>)"

definition clearTimeout :: "nat \<Rightarrow> table_state \<Rightarrow> table_state" where
  "clearTimeout i s = s\<lparr>timers := filter (\<lambda>t. timer_id t \<noteq> i) (timers s)\<rparr>"

text \<open>\<open>null + n\<close> is \<open>n\<close> in JavaScript.\<close>

definition to_number :: "int option \<Rightarrow> int" where
  "to_number v = (case v of None \<Rightarrow> 0 | Some n \<Rightarrow> n)"

text \<open>\<open>columnSizingStart.find((c) => c[0] === isResizingColumn)\<close>; \<open>None\<close> is \<open>undefined\<close>.\<close>

definition columnToUpdate :: "columnSizingInfo \<Rightarrow> (string \<times> int) option" where
  "columnToUpdate info =
     find (\<lambda>c. Some (fst c) = isResizingColumn info) (columnSizingStart info)"

text \<open>
  \<^verbatim>\<open>
  onColumnSizingChange: (updater) => {
    const { isResizingColumn, deltaOffset, columnSizingStart } =
      table.options.state.columnSizingInfo;
    let list: ColumnSizingState = null;
    if (typeof updater === "function") { list = updater(columnSizing); }
    else { list = updater; }
    const columnToUpdate = columnSizingStart.find((c) => c[0] === isResizingColumn);
    list[columnToUpdate[0]] = columnToUpdate[1] + deltaOffset;
    // cancelling previous timeout
    if (persistSizingTimeout) { clearTimeout(persistSizingTimeout); }
    // setting new timeout
    setPersistSizingTimeout(
      setTimeout(() => {
        columnActions.alterColumnSize(columnToUpdate[0], columnToUpdate[1] + deltaOffset);
      }, 1500));
    setColumnSizing(list);
  }
  \<close>
  Reading \<open>columnToUpdate[0]\<close> when \<open>find\<close> found nothing throws a \<open>TypeError\<close>, before any
  state is written. A handle is truthy unless it is 0. The handler reads the constants of
  its closure and writes the hooks.
\<close>

definition onColumnSizingChange ::
  "updater \<Rightarrow> columnSizingInfo \<Rightarrow> table_state \<Rightarrow> error + table_state" where
  "onColumnSizingChange upd info s =
     (let list = (case upd of Updater_function f \<Rightarrow> f (columnSizing s) | Updater_value v \<Rightarrow> v)
      in case columnToUpdate info of
           None \<Rightarrow> Inl TypeError
         | Some c \<Rightarrow>
             (let proposed = snd c + to_number (deltaOffset info);
                  list' = list(fst c \<mapsto> proposed);
                  s1 = (case persistSizingTimeout s of
                          None \<Rightarrow> s
                        | Some i \<Rightarrow> if i \<noteq> 0 then clearTimeout i s else s);
                  (handle, s2) = setTimeout (fst c, proposed) 1500 s1
              in Inr (s2\<lparr>hook_persistSizingTimeout := Some handle,
                        hook_columnSizing := list'\<rparr>)))"

text \<open>
  Modelled from the spec: \<open>columnActions.alterColumnSize\<close>, an action of the column store
  that is not part of the sources at hand. The specification calls it \<open>commitWidth\<close>:
  it "clamps \<open>width\<close> to \<open>[minWidth, maxWidth]\<close>" and "writes back into the persisted
  Column.width"; an unknown column id changes nothing.
\<close>

definition alterColumnSize :: "string \<Rightarrow> int \<Rightarrow> column list \<Rightarrow> column list" where
  "alterColumnSize cid w cols =
     map (\<lambda>c. if column_id c = cid then c\<lparr>width := min (max w (minWidth c)) (maxWidth c)\<rparr> else c)
       cols"

text \<open>
  A timeout that fires runs its callback: one call of \<open>alterColumnSize\<close>, recorded in
  \<open>commits\<close> with its arguments.
\<close>

definition fire :: "timer \<Rightarrow> table_state \<Rightarrow> table_state" where
  "fire t s =
     s\<lparr>commits := commits s @ [(commit_column t, commit_width t)],
       columns := alterColumnSize (commit_column t) (commit_width t) (columns s)\<rparr>"

text \<open>
  \<open>dt\<close> milliseconds pass with no event: the timeouts that have come due fire, in the
  order they were set (all of them wait 1500ms, so that is the order they are due in).
\<close>

definition elapse :: "nat \<Rightarrow> table_state \<Rightarrow> table_state" where
  "elapse dt s =
     (let t = now s + dt
      in fold fire (filter (\<lambda>x. due x \<le> t) (timers s))
           (s\<lparr>now := t, timers := filter (\<lambda>x. \<not> due x \<le> t) (timers s)\<rparr>))"

text \<open>
  A column-sizing event arrives \<open>gap\<close> milliseconds after the previous one. React renders
  some time after a setter was called; \<open>rerendered\<close> says whether it has rendered the
  component again since the previous event. If not, the handler that runs is still the
  closure of the earlier render. An error the handler throws is reported and the event
  loop goes on with the state as it was.
\<close>

record sizing_event =
  gap :: nat
  rerendered :: bool
  event_updater :: updater
  event_info :: columnSizingInfo

definition step :: "sizing_event \<Rightarrow> table_state \<Rightarrow> table_state" where
  "step e s =
     (let s0 = elapse (gap e) s;
          s1 = (if rerendered e then render s0 else s0)
      in case onColumnSizingChange (event_updater e) (event_info e) s1 of
           Inl err \<Rightarrow> s1\<lparr>uncaught := uncaught s1 @ [err]\<rparr>
         | Inr s2 \<Rightarrow> s2)"

fun run :: "sizing_event list \<Rightarrow> table_state \<Rightarrow> table_state" where
  "run [] s = s"
| "run (e # es) s = run es (step e s)"



section \<open>Adding a row (Table.tsx, lines 257-270)\<close>

text \<open>
  \<^verbatim>\<open>
  function handleKeyDown(e: any) {
    if (e.key === "Enter") { handleAddNewRow(); }
  }
  function handleAddNewRow() {
    dataActions.addRow(inputNewRow, columns, configInfo.getLocalSettings());
    setInputNewRow("");
    newRowRef.current.value = "";
  }
  \<close>
  \<open>dataActions.addRow\<close> comes from the row store and is a parameter here: a function from
  the name, the columns and the settings to a change of the rows. \<open>newRowRef\<close> is the
  value of the input element the ref points to, \<open>None\<close> while \<open>newRowRef.current\<close> is
  \<open>null\<close>; writing through a \<open>null\<close> ref throws, after the two calls before it.
\<close>

record 'rows add_row_state =
  inputNewRow :: string
  newRowRef :: "string option"
  rows :: 'rows
  addRow_calls :: "string list"

definition handleAddNewRow ::
  "(string \<Rightarrow> 'c \<Rightarrow> 'cfg \<Rightarrow> 'rows \<Rightarrow> 'rows) \<Rightarrow> 'c \<Rightarrow> 'cfg \<Rightarrow> 'rows add_row_state
     \<Rightarrow> error option \<times> 'rows add_row_state" where
  "handleAddNewRow addRow cols settings s =
     (let s1 = s\<lparr>rows := addRow (inputNewRow s) cols settings (rows s),
                 addRow_calls := addRow_calls s @ [inputNewRow s]\<rparr>;
          s2 = s1\<lparr>inputNewRow := []\<rparr>
      in case newRowRef s2 of
           None \<Rightarrow> (Some TypeError, s2)
         | Some _ \<Rightarrow> (None, s2\<lparr>newRowRef := Some []\<rparr>))"

definition handleKeyDown ::
  "string \<Rightarrow> (string \<Rightarrow> 'c \<Rightarrow> 'cfg \<Rightarrow> 'rows \<Rightarrow> 'rows) \<Rightarrow> 'c \<Rightarrow> 'cfg \<Rightarrow> 'rows add_row_state
     \<Rightarrow> error option \<times> 'rows add_row_state" where
  "handleKeyDown key addRow cols settings s =
     (if key = ''Enter'' then handleAddNewRow addRow cols settings s else (None, s))"

text \<open>Modelled from the spec: a name is "empty/blank" when it holds nothing but spaces.\<close>

definition blank :: "string \<Rightarrow> bool" where
  "blank name = list_all (\<lambda>ch. ch = CHR '' '') name"

text \<open>
  Modelled from the spec: \<open>addRow\<close> of the row store (not part of the sources at hand) in
  the words of the specification, "fails silently (no row created) if \<open>nameOrKey\<close> is
  empty/blank"; otherwise the name is the new row. It is the instance of \<open>addRow\<close> used
  in the worked examples.
\<close>

definition addRow_by_name :: "string \<Rightarrow> unit \<Rightarrow> unit \<Rightarrow> string list \<Rightarrow> string list" where
  "addRow_by_name nameOrKey cols settings rs = (if blank nameOrKey then rs else rs @ [nameOrKey])"

text \<open>
  The state of the worked examples: the user has typed \<open>name\<close>, the input element shows it,
  and there is one row.
\<close>

definition example_input :: "string \<Rightarrow> string list add_row_state" where
  "example_input name =
     \<lparr>inputNewRow = name, newRowRef = Some name, rows = [''first''], addRow_calls = []\<rparr>"

section \<open>The global filter (Table.tsx, lines 97, 238-240, 249)\<close>

text \<open>
  \<^verbatim>\<open>
  // Hack to force react-table to use all columns when filtering
  getColumnCanGlobalFilter: (column) => true,
  globalFilterFn: globalDatabaseFilterFn(configInfo.getLocalSettings()),
  \<close>
  The option \<open>getColumnCanGlobalFilter\<close> excludes no column from the global filter.
\<close>

definition getColumnCanGlobalFilter :: "column \<Rightarrow> bool" where
  "getColumnCanGlobalFilter column = True"

text \<open>
  Modelled from the spec: the row (\<open>RowDataType\<close> of \<open>cdm/FolderModel\<close> is not part of the
  sources at hand), "a mapping from column id to cell value"; a missing field renders as
  empty.
\<close>

record 'v row =
  row_id :: string
  cells :: "string \<rightharpoonup> 'v"

text \<open>
  Modelled from the spec: the text of a cell, "stringified"; how a cell value becomes a
  string is the parameter \<open>stringify\<close>.
\<close>

definition cell_text :: "('v \<Rightarrow> string) \<Rightarrow> 'v row \<Rightarrow> string \<Rightarrow> string" where
  "cell_text stringify r columnId = (case cells r columnId of None \<Rightarrow> [] | Some v \<Rightarrow> stringify v)"

text \<open>
  Modelled from the spec: "case-insensitively", as the lower case of the letters \<open>A\<close> to
  \<open>Z\<close>.
\<close>

definition lower_char :: "char \<Rightarrow> char" where
  "lower_char ch =
     (let n = (of_char ch :: nat) in if 65 \<le> n \<and> n \<le> 90 then char_of (n + 32) else ch)"

text \<open>
  Modelled from the spec: "contains", as a search for the filter text at every position
  of the cell text.
\<close>

fun starts_with :: "'a list \<Rightarrow> 'a list \<Rightarrow> bool" where
  "starts_with xs [] = True"
| "starts_with [] (y # ys) = False"
| "starts_with (x # xs) (y # ys) = (x = y \<and> starts_with xs ys)"

fun contains :: "'a list \<Rightarrow> 'a list \<Rightarrow> bool" where
  "contains [] ys = (ys = [])"
| "contains (x # xs) ys = (starts_with (x # xs) ys \<or> contains xs ys)"

text \<open>
  Modelled from the spec: \<open>globalDatabaseFilterFn\<close> (of
  \<open>components/reducers/TableFilterFlavours\<close>, not part of the sources at hand), the test
  of one cell: its "cell value, stringified, case-insensitively contains FilterText".
\<close>

definition globalDatabaseFilterFn :: "('v \<Rightarrow> string) \<Rightarrow> 'v row \<Rightarrow> string \<Rightarrow> string \<Rightarrow> bool" where
  "globalDatabaseFilterFn stringify r columnId filterValue =
     contains (map lower_char (cell_text stringify r columnId)) (map lower_char filterValue)"

text \<open>
  Modelled from the spec: the global-filter pass of the filtered row model, which is not
  part of the sources at hand either: "a row survives if any visible column's cell value,
  stringified, case-insensitively contains FilterText (empty FilterText passes all
  rows)". The columns it looks at are the visible ones that \<open>getColumnCanGlobalFilter\<close>
  admits.
\<close>

definition getFilteredRowModel ::
  "('v \<Rightarrow> string) \<Rightarrow> column list \<Rightarrow> string \<Rightarrow> 'v row list \<Rightarrow> 'v row list" where
  "getFilteredRowModel stringify cols globalFilter rs =
     (if globalFilter = [] then rs
      else filter
             (\<lambda>r. list_ex
                (\<lambda>c. visible c \<and> getColumnCanGlobalFilter c \<and>
                     globalDatabaseFilterFn stringify r (column_id c) globalFilter)
                cols)
             rs)"

text \<open>Two rows of the worked examples, with one field \<open>title\<close>.\<close>

definition example_row :: "string \<Rightarrow> string \<Rightarrow> string row" where
  "example_row name title = \<lparr>row_id = name, cells = [''title'' \<mapsto> title]\<rparr>"

section \<open>Invariants of the commit timer\<close>

text \<open>
  At most one timeout is pending, and it is the one the hook \<open>persistSizingTimeout\<close> names;
  handles are positive.
\<close>

definition pending_ok :: "table_state \<Rightarrow> bool" where
  "pending_ok s \<longleftrightarrow>
     0 < next_timer_id s \<and>
     (case timers s of
        [] \<Rightarrow> True
      | [t] \<Rightarrow> hook_persistSizingTimeout s = Some (timer_id t) \<and> timer_id t \<noteq> 0
      | _ \<Rightarrow> False)"

text \<open>
  The state right after a sizing event: one timeout, due in 1500ms, that will commit
  width \<open>w\<close> for column \<open>c\<close>.
\<close>

definition armed :: "string \<Rightarrow> int \<Rightarrow> table_state \<Rightarrow> bool" where
  "armed c w s \<longleftrightarrow>
     0 < next_timer_id s \<and>
     (case timers s of
        [t] \<Rightarrow> hook_persistSizingTimeout s = Some (timer_id t) \<and> timer_id t \<noteq> 0 \<and>
              due t = now s + 1500 \<and> commit_column t = c \<and> commit_width t = w
      | _ \<Rightarrow> False)"

section \<open>Facts about \<open>indexOf\<close> and \<open>splice\<close>\<close>

lemma indexOf_from_mem:
  "x \<in> set xs \<Longrightarrow> indexOf_from k xs x = int (k + length (takeWhile (\<lambda>y. y \<noteq> x) xs))"
  by (induction xs arbitrary: k) auto

lemma indexOf_mem:
  "x \<in> set xs \<Longrightarrow> indexOf xs x = int (length (takeWhile (\<lambda>y. y \<noteq> x) xs))"
  by (simp add: indexOf_def indexOf_from_mem)

lemma takeWhile_neq_less:
  "x \<in> set xs \<Longrightarrow> length (takeWhile (\<lambda>y. y \<noteq> x) xs) < length xs"
  by (induction xs) auto

lemma indexOf_less:
  "x \<in> set xs \<Longrightarrow> nat (indexOf xs x) < length xs"
  by (simp add: indexOf_mem takeWhile_neq_less)

lemma indexOf_nth:
  "x \<in> set xs \<Longrightarrow> xs ! nat (indexOf xs x) = x"
  using nth_length_takeWhile [of "\<lambda>y. y \<noteq> x" xs]
  by (simp add: indexOf_mem takeWhile_neq_less)

lemma splice_remove_one:
  "i < length xs \<Longrightarrow> splice xs (int i) 1 [] = ([xs ! i], take i xs @ drop (Suc i) xs)"
proof -
  assume i: "i < length xs"
  then have "take (Suc 0) (drop i xs) = [xs ! i]"
    by (simp add: Cons_nth_drop_Suc [symmetric])
  with i show ?thesis
    by (simp add: splice_def Let_def min_def max_def)
qed

lemma splice_insert_one:
  "i \<le> length ys \<Longrightarrow> splice ys (int i) 0 [x] = ([], take i ys @ [x] @ drop i ys)"
  by (simp add: splice_def Let_def min_def)

lemma insert_at_nth:
  "i \<le> length ys \<Longrightarrow> (take i ys @ [x] @ drop i ys) ! i = x"
  by (simp add: nth_append)

lemma insert_at_nth_before:
  "j < i \<Longrightarrow> i \<le> length ys \<Longrightarrow> (take i ys @ [x] @ drop i ys) ! j = ys ! j"
  by (simp add: nth_append)

lemma insert_at_nth_after:
  "i \<le> j \<Longrightarrow> j < length ys \<Longrightarrow> (take i ys @ [x] @ drop i ys) ! Suc j = ys ! j"
  by (simp add: nth_append min_def Suc_diff_le)

lemma mset_insert_at:
  "mset (take i ys @ [x] @ drop i ys) = mset ys + {#x#}"
proof -
  have "mset (take i ys) + mset (drop i ys) = mset ys"
    by (metis append_take_drop_id mset_append)
  then show ?thesis
    by (simp add: ac_simps)
qed

lemma remove_at_length:
  "i < length xs \<Longrightarrow> length (take i xs @ drop (Suc i) xs) = length xs - 1"
  by simp

lemma remove_at_nth_before:
  "j < i \<Longrightarrow> i < length xs \<Longrightarrow> (take i xs @ drop (Suc i) xs) ! j = xs ! j"
  by (simp add: nth_append)

lemma remove_at_nth_after:
  "i \<le> j \<Longrightarrow> Suc j < length xs \<Longrightarrow> (take i xs @ drop (Suc i) xs) ! j = xs ! Suc j"
  by (simp add: nth_append min_def)

lemma mset_remove_at:
  "i < length xs \<Longrightarrow> mset (take i xs @ drop (Suc i) xs) + {#xs ! i#} = mset xs"
proof -
  assume "i < length xs"
  then have "xs = take i xs @ xs ! i # drop (Suc i) xs"
    by (rule id_take_nth_drop)
  then have "mset xs = mset (take i xs @ xs ! i # drop (Suc i) xs)"
    by simp
  then show ?thesis
    by simp
qed

lemma reorderColumn_unfold:
  assumes d: "Str d \<in> set (arrays h r)" and t: "Str t \<in> set (arrays h r)"
  shows "reorderColumn d t r h =
     (let xs = arrays h r;
          di = nat (indexOf xs (Str d));
          ti = nat (indexOf xs (Str t));
          rest = take di xs @ drop (Suc di) xs;
          res = take ti rest @ [Str d] @ drop ti rest
      in (next_ref h,
          h\<lparr>arrays := (arrays h)(r := res, next_ref h := res), next_ref := Suc (next_ref h)\<rparr>))"
proof -
  let ?xs = "arrays h r"
  let ?di = "nat (indexOf ?xs (Str d))"
  let ?ti = "nat (indexOf ?xs (Str t))"
  let ?rest = "take ?di ?xs @ drop (Suc ?di) ?xs"
  have di: "?di < length ?xs" and ti: "?ti < length ?xs"
    using d t by (simp_all add: indexOf_less)
  have idi: "indexOf ?xs (Str d) = int ?di" and iti: "indexOf ?xs (Str t) = int ?ti"
    using d t by (simp_all add: indexOf_mem)
  have len: "?ti \<le> length ?rest"
    using di ti by simp
  have s1: "splice ?xs (indexOf ?xs (Str d)) 1 [] = ([Str d], ?rest)"
    using splice_remove_one [OF di] indexOf_nth [OF d] idi by simp
  have s2: "splice ?rest (indexOf ?xs (Str t)) 0 [Str d] = ([], take ?ti ?rest @ [Str d] @ drop ?ti ?rest)"
    using splice_insert_one [OF len] iti by simp
  show ?thesis
    unfolding reorderColumn_def splice_at_def spread_def Let_def
    by (simp add: s1 s2 first_elem_def)
qed

lemma reorderColumn_returned:
  assumes d: "Str d \<in> set (arrays h r)" and t: "Str t \<in> set (arrays h r)"
    and call: "reorderColumn d t r h = (r', h')"
  shows "arrays h' r' =
     (let xs = arrays h r;
          di = nat (indexOf xs (Str d));
          ti = nat (indexOf xs (Str t));
          rest = take di xs @ drop (Suc di) xs
      in take ti rest @ [Str d] @ drop ti rest)"
  using call unfolding reorderColumn_unfold [OF d t] Let_def by auto

section \<open>The worked example\<close>

lemma example_arrays:
  "arrays example_store 0 = [Str ''a'', Str ''b'', Str ''c'']"
  "next_ref example_store = 1"
  by (simp_all add: example_store_def)

lemma example_indexOf:
  "indexOf [Str ''a'', Str ''b'', Str ''c''] (Str ''c'') = 2"
  "indexOf [Str ''a'', Str ''b'', Str ''c''] (Str ''a'') = 0"
  by (simp_all add: indexOf_def)

lemma example_splice:
  "splice [Str ''a'', Str ''b'', Str ''c''] 0 1 [] = ([Str ''a''], [Str ''b'', Str ''c''])"
  "splice [Str ''b'', Str ''c''] 2 0 [Str ''a''] = ([], [Str ''b'', Str ''c'', Str ''a''])"
  by (simp_all add: splice_def Let_def)

lemma example_reorderColumn:
  "fst (reorderColumn ''a'' ''c'' 0 example_store) = 1"
  "arrays (snd (reorderColumn ''a'' ''c'' 0 example_store)) 0 = [Str ''b'', Str ''c'', Str ''a'']"
  "arrays (snd (reorderColumn ''a'' ''c'' 0 example_store)) (Suc 0) = [Str ''b'', Str ''c'', Str ''a'']"
  by (simp_all add: reorderColumn_def splice_at_def spread_def example_indexOf example_splice
      first_elem_def example_store_def Let_def)

section \<open>Claims about \<open>reorderColumn\<close>\<close>

text \<open>
  C1, as stated, fails. Dragging \<open>a\<close> onto \<open>c\<close> in \<open>[a, b, c]\<close> gives \<open>[b, c, a]\<close>: the
  index of the target is taken before the dragged id is removed, so a dragged id that
  started before the target lands behind it. Removing \<open>a\<close> and reinserting it
  immediately before \<open>c\<close> would give \<open>[b, a, c]\<close>.
\<close>

theorem reorderColumn_before_target_counterexample:
  "arrays (snd (reorderColumn ''a'' ''c'' 0 example_store))
     (fst (reorderColumn ''a'' ''c'' 0 example_store)) = [Str ''b'', Str ''c'', Str ''a''] \<and>
   reorder_spec (Str ''a'') (Str ''c'') (arrays example_store 0) = [Str ''b'', Str ''a'', Str ''c''] \<and>
   arrays (snd (reorderColumn ''a'' ''c'' 0 example_store))
     (fst (reorderColumn ''a'' ''c'' 0 example_store))
     \<noteq> reorder_spec (Str ''a'') (Str ''c'') (arrays example_store 0)"
  by (simp add: example_reorderColumn example_arrays reorder_spec_def)

text \<open>
  C1, amended. When both ids occur in the cached order, \<open>reorderColumn\<close> removes the
  dragged id from its position and reinserts it at the index the target had in the
  original sequence, and returns the resulting sequence. So the dragged id ends at the
  target's original index: immediately before the target when it started after the
  target, immediately after the target when it started before it.
\<close>

theorem reorderColumn_target_index:
  assumes d: "Str d \<in> set (arrays h r)" and t: "Str t \<in> set (arrays h r)"
    and call: "reorderColumn d t r h = (r', h')"
  shows "let xs = arrays h r;
             di = nat (indexOf xs (Str d));
             ti = nat (indexOf xs (Str t));
             rest = take di xs @ drop (Suc di) xs;
             res = arrays h' r'
         in res = take ti rest @ [Str d] @ drop ti rest \<and>
            res ! ti = Str d \<and>
            (ti < di \<longrightarrow> res ! Suc ti = Str t) \<and>
            (di < ti \<longrightarrow> res ! (ti - 1) = Str t)"
proof -
  define xs where "xs = arrays h r"
  define di where "di = nat (indexOf xs (Str d))"
  define ti where "ti = nat (indexOf xs (Str t))"
  define rest where "rest = take di xs @ drop (Suc di) xs"
  define res where "res = take ti rest @ [Str d] @ drop ti rest"
  have di: "di < length xs" and ti: "ti < length xs"
    using d t by (simp_all add: indexOf_less xs_def di_def ti_def)
  have tn: "xs ! ti = Str t"
    using t unfolding xs_def ti_def by (rule indexOf_nth)
  have ret: "arrays h' r' = res"
    using reorderColumn_returned [OF d t call]
    by (simp add: Let_def xs_def di_def ti_def rest_def res_def)
  have len: "length rest = length xs - 1"
    unfolding rest_def using di by (rule remove_at_length)
  have le: "ti \<le> length rest"
    using len ti by simp
  have at: "res ! ti = Str d"
    unfolding res_def using le by (rule insert_at_nth)
  have before: "res ! Suc ti = Str t" if "ti < di"
  proof -
    have "rest ! ti = xs ! ti"
      unfolding rest_def using that di by (rule remove_at_nth_before)
    moreover have "ti < length rest"
      using that di len by simp
    ultimately show ?thesis
      using tn insert_at_nth_after [of ti ti rest "Str d"] by (simp add: res_def)
  qed
  have after: "res ! (ti - 1) = Str t" if "di < ti"
  proof -
    have "rest ! (ti - 1) = xs ! Suc (ti - 1)"
      unfolding rest_def using that ti by (intro remove_at_nth_after) simp_all
    moreover have "res ! (ti - 1) = rest ! (ti - 1)"
      unfolding res_def using that le by (intro insert_at_nth_before) simp_all
    ultimately show ?thesis
      using that tn by simp
  qed
  have "res = take ti rest @ [Str d] @ drop ti rest \<and> res ! ti = Str d \<and>
        (ti < di \<longrightarrow> res ! Suc ti = Str t) \<and> (di < ti \<longrightarrow> res ! (ti - 1) = Str t)"
    using at before after by (simp add: res_def)
  then show ?thesis
    unfolding Let_def ret xs_def [symmetric] di_def [symmetric] ti_def [symmetric]
      rest_def [symmetric] .
qed

theorem reorderColumn_target_index_witness:
  "Str ''a'' \<in> set (arrays example_store 0) \<and> Str ''c'' \<in> set (arrays example_store 0) \<and>
   arrays (snd (reorderColumn ''a'' ''c'' 0 example_store))
     (fst (reorderColumn ''a'' ''c'' 0 example_store)) ! 2 = Str ''a'' \<and>
   arrays (snd (reorderColumn ''a'' ''c'' 0 example_store))
     (fst (reorderColumn ''a'' ''c'' 0 example_store)) ! 1 = Str ''c''"
proof -
  have d: "Str ''a'' \<in> set (arrays example_store 0)"
    and t: "Str ''c'' \<in> set (arrays example_store 0)"
    by (simp_all add: example_arrays)
  have call: "reorderColumn ''a'' ''c'' 0 example_store =
      (fst (reorderColumn ''a'' ''c'' 0 example_store),
       snd (reorderColumn ''a'' ''c'' 0 example_store))"
    by simp
  show ?thesis
    using d t reorderColumn_target_index [OF d t call]
    by (simp add: Let_def example_arrays example_indexOf)
qed

text \<open>
  C6. When both ids occur in the cached order, the sequence \<open>reorderColumn\<close> returns is a
  permutation of the input: the two have the same multiset of column ids.
\<close>

theorem reorderColumn_permutation:
  assumes d: "Str d \<in> set (arrays h r)" and t: "Str t \<in> set (arrays h r)"
    and call: "reorderColumn d t r h = (r', h')"
  shows "mset (arrays h' r') = mset (arrays h r)"
proof -
  define xs where "xs = arrays h r"
  define di where "di = nat (indexOf xs (Str d))"
  define ti where "ti = nat (indexOf xs (Str t))"
  define rest where "rest = take di xs @ drop (Suc di) xs"
  have di: "di < length xs"
    using d by (simp add: indexOf_less xs_def di_def)
  have dn: "xs ! di = Str d"
    using d unfolding xs_def di_def by (rule indexOf_nth)
  have "arrays h' r' = take ti rest @ [Str d] @ drop ti rest"
    using reorderColumn_returned [OF d t call]
    by (simp add: Let_def xs_def di_def ti_def rest_def)
  then have "mset (arrays h' r') = mset rest + {#xs ! di#}"
    using dn by (simp only: mset_insert_at)
  also have "\<dots> = mset xs"
    unfolding rest_def using di by (rule mset_remove_at)
  finally show ?thesis
    by (simp add: xs_def)
qed

theorem reorderColumn_permutation_witness:
  "Str ''a'' \<in> set (arrays example_store 0) \<and> Str ''c'' \<in> set (arrays example_store 0) \<and>
   mset (arrays (snd (reorderColumn ''a'' ''c'' 0 example_store))
     (fst (reorderColumn ''a'' ''c'' 0 example_store))) = mset [Str ''a'', Str ''b'', Str ''c'']"
proof -
  have d: "Str ''a'' \<in> set (arrays example_store 0)"
    and t: "Str ''c'' \<in> set (arrays example_store 0)"
    by (simp_all add: example_arrays)
  have call: "reorderColumn ''a'' ''c'' 0 example_store =
      (fst (reorderColumn ''a'' ''c'' 0 example_store),
       snd (reorderColumn ''a'' ''c'' 0 example_store))"
    by simp
  show ?thesis
    using d t reorderColumn_permutation [OF d t call]
    by (simp add: example_arrays)
qed

text \<open>
  C10. \<open>reorderColumn\<close> changes the array it is given in place and returns a new array.
  For an argument that is a live reference: the returned reference is another one; after
  the call the caller's array holds the sequence the two splices produce from its old
  contents, element for element the returned array; no other array has changed. When
  both ids occur, that sequence is the old one with the dragged id moved to the target's
  index, and for two different ids it differs from the old contents: the argument has
  been mutated.
\<close>

theorem reorderColumn_in_place:
  assumes call: "reorderColumn d t r h = (r', h')" and live: "r < next_ref h"
  shows "r' \<noteq> r \<and> arrays h' r = arrays h' r' \<and>
         arrays h' r =
           snd (splice (snd (splice (arrays h r) (indexOf (arrays h r) (Str d)) 1 []))
                  (indexOf (arrays h r) (Str t)) 0
                  [first_elem (fst (splice (arrays h r) (indexOf (arrays h r) (Str d)) 1 []))]) \<and>
         (Str d \<in> set (arrays h r) \<and> Str t \<in> set (arrays h r) \<longrightarrow>
            arrays h' r =
              (let xs = arrays h r;
                   di = nat (indexOf xs (Str d));
                   ti = nat (indexOf xs (Str t));
                   rest = take di xs @ drop (Suc di) xs
               in take ti rest @ [Str d] @ drop ti rest) \<and>
            (d \<noteq> t \<longrightarrow> arrays h' r \<noteq> arrays h r)) \<and>
         (\<forall>q. q \<noteq> r \<and> q \<noteq> r' \<longrightarrow> arrays h' q = arrays h q)"
proof -
  define res where "res =
      snd (splice (snd (splice (arrays h r) (indexOf (arrays h r) (Str d)) 1 []))
             (indexOf (arrays h r) (Str t)) 0
             [first_elem (fst (splice (arrays h r) (indexOf (arrays h r) (Str d)) 1 []))])"
  have "reorderColumn d t r h =
     (next_ref h,
      h\<lparr>arrays := (arrays h)(r := res, next_ref h := res), next_ref := Suc (next_ref h)\<rparr>)"
    unfolding reorderColumn_def splice_at_def spread_def Let_def res_def
    by (simp split: prod.splits)
  with call have r': "r' = next_ref h"
    and h': "h' = h\<lparr>arrays := (arrays h)(r := res, next_ref h := res),
                     next_ref := Suc (next_ref h)\<rparr>"
    by auto
  have fresh: "r' \<noteq> r"
    using r' live by simp
  have same: "arrays h' r = arrays h' r'"
    using r' h' by simp
  have holds: "arrays h' r = res"
    using h' live by simp
  have frame: "\<forall>q. q \<noteq> r \<and> q \<noteq> r' \<longrightarrow> arrays h' q = arrays h q"
    using r' h' by simp
  have moved: "arrays h' r =
      (let xs = arrays h r;
           di = nat (indexOf xs (Str d));
           ti = nat (indexOf xs (Str t));
           rest = take di xs @ drop (Suc di) xs
       in take ti rest @ [Str d] @ drop ti rest) \<and>
      (d \<noteq> t \<longrightarrow> arrays h' r \<noteq> arrays h r)"
    if d: "Str d \<in> set (arrays h r)" and t: "Str t \<in> set (arrays h r)"
  proof -
    define xs where "xs = arrays h r"
    define di where "di = nat (indexOf xs (Str d))"
    define ti where "ti = nat (indexOf xs (Str t))"
    define rest where "rest = take di xs @ drop (Suc di) xs"
    have eq: "arrays h' r = take ti rest @ [Str d] @ drop ti rest"
      using call unfolding reorderColumn_unfold [OF d t] Let_def
      by (auto simp: xs_def di_def ti_def rest_def)
    have di: "di < length xs" and ti: "ti < length xs"
      using d t by (simp_all add: indexOf_less xs_def di_def ti_def)
    have "length rest = length xs - 1"
      unfolding rest_def using di by (rule remove_at_length)
    then have "ti \<le> length rest"
      using ti by simp
    then have at: "(take ti rest @ [Str d] @ drop ti rest) ! ti = Str d"
      by (rule insert_at_nth)
    have "xs ! ti = Str t"
      using t unfolding xs_def ti_def by (rule indexOf_nth)
    with at eq have "arrays h' r \<noteq> arrays h r" if "d \<noteq> t"
      using that by (auto simp: xs_def)
    with eq show ?thesis
      by (simp add: Let_def xs_def di_def ti_def rest_def)
  qed
  show ?thesis
    using fresh same holds frame moved unfolding res_def by blast
qed

theorem reorderColumn_in_place_witness:
  "0 < next_ref example_store \<and>
   Str ''a'' \<in> set (arrays example_store 0) \<and> Str ''c'' \<in> set (arrays example_store 0) \<and>
   fst (reorderColumn ''a'' ''c'' 0 example_store) \<noteq> 0 \<and>
   arrays (snd (reorderColumn ''a'' ''c'' 0 example_store)) 0 =
     arrays (snd (reorderColumn ''a'' ''c'' 0 example_store))
       (fst (reorderColumn ''a'' ''c'' 0 example_store)) \<and>
   arrays (snd (reorderColumn ''a'' ''c'' 0 example_store)) 0 = [Str ''b'', Str ''c'', Str ''a''] \<and>
   arrays (snd (reorderColumn ''a'' ''c'' 0 example_store)) 0 \<noteq> arrays example_store 0 \<and>
   arrays (snd (reorderColumn ''a'' ''c'' 0 example_store)) 7 = arrays example_store 7"
proof -
  have live: "0 < next_ref example_store"
    by (simp add: example_arrays)
  have d: "Str ''a'' \<in> set (arrays example_store 0)"
    and t: "Str ''c'' \<in> set (arrays example_store 0)"
    by (simp_all add: example_arrays)
  have ne: "''a'' \<noteq> ''c''"
    by simp
  have call: "reorderColumn ''a'' ''c'' 0 example_store =
      (fst (reorderColumn ''a'' ''c'' 0 example_store),
       snd (reorderColumn ''a'' ''c'' 0 example_store))"
    by simp
  note inst = reorderColumn_in_place [OF call live]
  have fresh: "fst (reorderColumn ''a'' ''c'' 0 example_store) \<noteq> 0"
    using inst by blast
  have same: "arrays (snd (reorderColumn ''a'' ''c'' 0 example_store)) 0 =
     arrays (snd (reorderColumn ''a'' ''c'' 0 example_store))
       (fst (reorderColumn ''a'' ''c'' 0 example_store))"
    using inst by blast
  have "arrays (snd (reorderColumn ''a'' ''c'' 0 example_store)) 0 =
      (let xs = arrays example_store 0;
           di = nat (indexOf xs (Str ''a''));
           ti = nat (indexOf xs (Str ''c''));
           rest = take di xs @ drop (Suc di) xs
       in take ti rest @ [Str ''a''] @ drop ti rest)"
    using inst d t by blast
  then have moved: "arrays (snd (reorderColumn ''a'' ''c'' 0 example_store)) 0 =
      [Str ''b'', Str ''c'', Str ''a'']"
    by (simp add: Let_def example_arrays example_indexOf)
  have changed: "arrays (snd (reorderColumn ''a'' ''c'' 0 example_store)) 0 \<noteq>
      arrays example_store 0"
    using inst d t ne by blast
  have frame: "arrays (snd (reorderColumn ''a'' ''c'' 0 example_store)) 7 = arrays example_store 7"
  proof -
    have "(7::nat) \<noteq> 0 \<and> 7 \<noteq> fst (reorderColumn ''a'' ''c'' 0 example_store)"
      by (simp add: example_reorderColumn)
    with inst show ?thesis
      by blast
  qed
  show ?thesis
    using live d t fresh same moved changed frame by (intro conjI)
qed

section \<open>Facts about the commit timer\<close>





lemma elapse_no_timers:
  "timers s = [] \<Longrightarrow> elapse dt s = s\<lparr>now := now s + dt\<rparr>"
  by (simp add: elapse_def Let_def)

lemma elapse_single_early:
  "timers s = [t] \<Longrightarrow> now s + dt < due t \<Longrightarrow> elapse dt s = s\<lparr>now := now s + dt\<rparr>"
  by (simp add: elapse_def Let_def)

lemma elapse_single_due:
  "timers s = [t] \<Longrightarrow> due t \<le> now s + dt \<Longrightarrow>
     elapse dt s = fire t (s\<lparr>now := now s + dt, timers := []\<rparr>)"
  by (simp add: elapse_def Let_def)

lemma pending_ok_cases:
  assumes "pending_ok s"
  obtains "timers s = []" "0 < next_timer_id s"
  | t where "timers s = [t]" "hook_persistSizingTimeout s = Some (timer_id t)" "timer_id t \<noteq> 0"
      "0 < next_timer_id s"
  using assms unfolding pending_ok_def
  by (auto split: list.splits)

lemma armed_pending_ok: "armed c w s \<Longrightarrow> pending_ok s"
  by (auto simp: armed_def pending_ok_def split: list.splits)

lemma pending_ok_elapse: "pending_ok s \<Longrightarrow> pending_ok (elapse dt s)"
proof (erule pending_ok_cases)
  assume "timers s = []" "0 < next_timer_id s"
  then show ?thesis
    by (simp add: elapse_no_timers pending_ok_def)
next
  fix t
  assume t: "timers s = [t]" "hook_persistSizingTimeout s = Some (timer_id t)" "timer_id t \<noteq> 0"
    "0 < next_timer_id s"
  show ?thesis
  proof (cases "due t \<le> now s + dt")
    case True
    with t show ?thesis
      by (simp add: elapse_single_due fire_def pending_ok_def)
  next
    case False
    with t show ?thesis
      by (simp add: elapse_single_early pending_ok_def)
  qed
qed

lemma pending_ok_render: "pending_ok s \<Longrightarrow> pending_ok (render s)"
  by (auto simp: pending_ok_def render_def split: list.splits)

lemma render_fields:
  "persistSizingTimeout (render s) = hook_persistSizingTimeout s"
  "hook_persistSizingTimeout (render s) = hook_persistSizingTimeout s"
  "timers (render s) = timers s" "now (render s) = now s" "commits (render s) = commits s"
  "next_timer_id (render s) = next_timer_id s"
  by (simp_all add: render_def)

text \<open>
  When the closure holds the handle the hook holds, or nothing is pending, the handler's
  \<open>clearTimeout\<close> leaves no timeout pending.
\<close>

lemma clear_pending:
  assumes "pending_ok s"
    and "timers s = [] \<or> persistSizingTimeout s = hook_persistSizingTimeout s"
  shows "timers (case persistSizingTimeout s of
                   None \<Rightarrow> s
                 | Some i \<Rightarrow> if i \<noteq> 0 then clearTimeout i s else s) = []"
  using assms
  by (erule_tac pending_ok_cases) (auto simp: clearTimeout_def split: option.splits)

lemma onColumnSizingChange_armed:
  assumes ok: "pending_ok s"
    and fresh: "timers s = [] \<or> persistSizingTimeout s = hook_persistSizingTimeout s"
    and col: "columnToUpdate info = Some (c, start)"
  shows "\<exists>s'. onColumnSizingChange upd info s = Inr s' \<and>
           armed c (start + to_number (deltaOffset info)) s' \<and>
           commits s' = commits s \<and> columns s' = columns s \<and> now s' = now s \<and>
           uncaught s' = uncaught s"
proof -
  let ?s1 = "case persistSizingTimeout s of
               None \<Rightarrow> s
             | Some i \<Rightarrow> if i \<noteq> 0 then clearTimeout i s else s"
  have t: "timers ?s1 = []"
    using ok fresh by (rule clear_pending)
  have rest: "next_timer_id ?s1 = next_timer_id s" "now ?s1 = now s" "commits ?s1 = commits s"
    "columns ?s1 = columns s" "uncaught ?s1 = uncaught s"
    by (simp_all add: clearTimeout_def split: option.splits)
  have pos: "0 < next_timer_id s"
    using ok by (simp add: pending_ok_def)
  show ?thesis
    using t rest pos
    by (simp add: onColumnSizingChange_def col setTimeout_def armed_def Let_def)
qed

lemma onColumnSizingChange_error:
  "columnToUpdate info = None \<Longrightarrow> onColumnSizingChange upd info s = Inl TypeError"
  by (simp add: onColumnSizingChange_def Let_def)



lemma pending_ok_step:
  assumes "pending_ok s" and "rerendered e"
  shows "pending_ok (step e s)"
proof -
  have ok: "pending_ok (render (elapse (gap e) s))"
    using assms(1) by (intro pending_ok_render pending_ok_elapse)
  show ?thesis
  proof (cases "columnToUpdate (event_info e)")
    case None
    then show ?thesis
      using ok assms(2)
      by (auto simp: step_def Let_def onColumnSizingChange_error pending_ok_def split: list.splits)
  next
    case (Some p)
    obtain c start where p: "p = (c, start)"
      by (cases p)
    have fresh: "timers (render (elapse (gap e) s)) = [] \<or>
        persistSizingTimeout (render (elapse (gap e) s)) =
          hook_persistSizingTimeout (render (elapse (gap e) s))"
      by (simp add: render_fields)
    from onColumnSizingChange_armed [OF ok fresh, of "event_info e" c start "event_updater e"]
      Some p assms(2)
    show ?thesis
      by (auto simp: step_def Let_def dest: armed_pending_ok)
  qed
qed

lemma pending_ok_run:
  "pending_ok s \<Longrightarrow> \<forall>e \<in> set evs. rerendered e \<Longrightarrow> pending_ok (run evs s)"
  by (induction evs arbitrary: s) (simp_all add: pending_ok_step)

lemma run_append: "run (xs @ ys) s = run ys (run xs s)"
  by (induction xs arbitrary: s) simp_all

lemma step_armed:
  assumes ok: "pending_ok (elapse (gap e) s)"
    and fresh: "timers (elapse (gap e) s) = [] \<or> rerendered e"
    and col: "columnToUpdate (event_info e) = Some (c, start)"
  shows "armed c (start + to_number (deltaOffset (event_info e))) (step e s) \<and>
         commits (step e s) = commits (elapse (gap e) s)"
proof -
  let ?s1 = "if rerendered e then render (elapse (gap e) s) else elapse (gap e) s"
  have ok1: "pending_ok ?s1"
    using ok by (simp add: pending_ok_render)
  have fresh1: "timers ?s1 = [] \<or> persistSizingTimeout ?s1 = hook_persistSizingTimeout ?s1"
    using fresh by (auto simp: render_fields)
  have c1: "commits ?s1 = commits (elapse (gap e) s)"
    by (simp add: render_fields)
  from onColumnSizingChange_armed [OF ok1 fresh1 col, of "event_updater e"] c1
  show ?thesis
    by (auto simp: step_def Let_def)
qed

lemma armed_elapse_early:
  assumes "armed c w s" and "dt < 1500"
  shows "elapse dt s = s\<lparr>now := now s + dt\<rparr>"
proof -
  from assms(1) obtain t where "timers s = [t]" "due t = now s + 1500"
    by (auto simp: armed_def split: list.splits)
  with assms(2) show ?thesis
    by (simp add: elapse_single_early)
qed

lemma armed_elapse_due:
  assumes "armed c w s" and "1500 \<le> dt"
  shows "commits (elapse dt s) = commits s @ [(c, w)]"
proof -
  from assms(1) obtain t where "timers s = [t]" "due t = now s + 1500"
    "commit_column t = c" "commit_width t = w"
    by (auto simp: armed_def split: list.splits)
  with assms(2) show ?thesis
    by (simp add: elapse_single_due fire_def)
qed

lemma armed_step:
  assumes a: "armed c w s" and g: "gap e < 1500" and r: "rerendered e"
    and col: "columnToUpdate (event_info e) = Some (c', start)"
  shows "armed c' (start + to_number (deltaOffset (event_info e))) (step e s) \<and>
         commits (step e s) = commits s"
proof -
  have el: "elapse (gap e) s = s\<lparr>now := now s + gap e\<rparr>"
    using a g by (rule armed_elapse_early)
  have ok: "pending_ok (elapse (gap e) s)"
    using a by (intro pending_ok_elapse armed_pending_ok)
  have fresh: "timers (elapse (gap e) s) = [] \<or> rerendered e"
    using r by simp
  from step_armed [OF ok fresh col] el show ?thesis
    by simp
qed

lemma pending_ok_timers: "pending_ok s \<Longrightarrow> length (timers s) \<le> 1"
  by (auto simp: pending_ok_def split: list.splits)

lemma no_timers_pending_ok: "timers s = [] \<Longrightarrow> 0 < next_timer_id s \<Longrightarrow> pending_ok s"
  by (simp add: pending_ok_def)

lemma run_armed_commits:
  assumes "armed c w s"
    and "\<forall>e \<in> set es. gap e < 1500 \<and> rerendered e \<and> columnToUpdate (event_info e) \<noteq> None"
  shows "commits (run es s) = commits s"
  using assms
proof (induction es arbitrary: s c w)
  case Nil
  then show ?case by simp
next
  case (Cons e es)
  from Cons.prems(2) obtain c' start where
    col: "columnToUpdate (event_info e) = Some (c', start)" and g: "gap e < 1500"
    and r: "rerendered e"
    by auto
  from armed_step [OF Cons.prems(1) g r col]
  have a: "armed c' (start + to_number (deltaOffset (event_info e))) (step e s)"
    and c: "commits (step e s) = commits s"
    by simp_all
  from Cons.IH [OF a] Cons.prems(2) c show ?case
    by simp
qed

lemma run_armed_last:
  assumes "armed c w s"
    and "\<forall>e \<in> set es. gap e < 1500 \<and> rerendered e \<and> columnToUpdate (event_info e) \<noteq> None"
    and "es \<noteq> []"
    and "columnToUpdate (event_info (last es)) = Some (c', start)"
  shows "armed c' (start + to_number (deltaOffset (event_info (last es)))) (run es s)"
  using assms
proof (induction es arbitrary: s c w)
  case Nil
  then show ?case by simp
next
  case (Cons e es)
  from Cons.prems(2) obtain c1 st1 where
    col: "columnToUpdate (event_info e) = Some (c1, st1)" and g: "gap e < 1500"
    and r: "rerendered e"
    by auto
  from armed_step [OF Cons.prems(1) g r col]
  have a: "armed c1 (st1 + to_number (deltaOffset (event_info e))) (step e s)"
    by simp
  show ?case
  proof (cases "es = []")
    case True
    with a col Cons.prems(4) show ?thesis
      by simp
  next
    case False
    with Cons.IH [OF a] Cons.prems(2,4) show ?thesis
      by simp
  qed
qed




section \<open>Claims about the commit timer\<close>

text \<open>
  When the component has rendered between the events, the debounce works. Take one or more
  sizing events on a column \<open>c\<close>, each less than 1500ms after the one before it and each
  after a render, on a table with no timeout pending. While they arrive no commit is
  issued, and each event leaves exactly one timeout pending, due 1500ms later. After the
  last event nothing is committed as long as less than 1500ms have passed, and once 1500ms
  have passed exactly one call of \<open>alterColumnSize\<close> has been made, with the width of the
  last event: its start width plus its offset.
\<close>

lemma debounce_one_commit_when_rerendered:
  assumes ne: "evs \<noteq> []"
    and cols: "\<forall>e \<in> set evs. \<exists>st. columnToUpdate (event_info e) = Some (c, st)"
    and final: "columnToUpdate (event_info (last evs)) = Some (c, start)"
    and gaps: "\<forall>e \<in> set (tl evs). gap e < 1500 \<and> rerendered e"
    and idle: "timers s0 = []" and pos: "0 < next_timer_id s0"
  shows "commits (run evs s0) = commits s0 \<and>
         map (\<lambda>t. (due t, commit_column t, commit_width t)) (timers (run evs s0)) =
           [(now (run evs s0) + 1500, c,
             start + to_number (deltaOffset (event_info (last evs))))] \<and>
         (\<forall>q < 1500. commits (elapse q (run evs s0)) = commits s0) \<and>
         (\<forall>q \<ge> 1500. commits (elapse q (run evs s0)) =
            commits s0 @ [(c, start + to_number (deltaOffset (event_info (last evs))))])"
proof -
  obtain e es where evs: "evs = e # es"
    using ne by (cases evs) auto
  obtain st where col: "columnToUpdate (event_info e) = Some (c, st)"
    using cols evs by auto
  have el: "elapse (gap e) s0 = s0\<lparr>now := now s0 + gap e\<rparr>"
    using idle by (rule elapse_no_timers)
  have ok: "pending_ok (elapse (gap e) s0)"
    using idle pos by (intro pending_ok_elapse no_timers_pending_ok)
  have fresh: "timers (elapse (gap e) s0) = [] \<or> rerendered e"
    using el idle by simp
  from step_armed [OF ok fresh col] el
  have a: "armed c (st + to_number (deltaOffset (event_info e))) (step e s0)"
    and c: "commits (step e s0) = commits s0"
    by simp_all
  have rest: "\<forall>x \<in> set es. gap x < 1500 \<and> rerendered x \<and> columnToUpdate (event_info x) \<noteq> None"
    using cols gaps evs by auto
  have same: "commits (run evs s0) = commits s0"
    using run_armed_commits [OF a rest] c evs by simp
  have armed_end: "armed c (start + to_number (deltaOffset (event_info (last evs)))) (run evs s0)"
  proof (cases "es = []")
    case True
    with a col final evs show ?thesis
      by simp
  next
    case False
    with run_armed_last [OF a rest False, of c start] final evs show ?thesis
      by simp
  qed
  have one: "map (\<lambda>t. (due t, commit_column t, commit_width t)) (timers (run evs s0)) =
      [(now (run evs s0) + 1500, c, start + to_number (deltaOffset (event_info (last evs))))]"
    using armed_end by (auto simp: armed_def split: list.splits)
  have early: "commits (elapse q (run evs s0)) = commits s0" if "q < 1500" for q
    using armed_elapse_early [OF armed_end that] same by simp
  have late: "commits (elapse q (run evs s0)) =
      commits s0 @ [(c, start + to_number (deltaOffset (event_info (last evs))))]"
    if "1500 \<le> q" for q
    using armed_elapse_due [OF armed_end that] same by simp
  show ?thesis
    using same one early late by blast
qed


text \<open>
  When the component has rendered between the events, there is one commit timer for the
  whole table: at most one timeout is pending after any sequence of sizing events, and a
  sizing event for any column \<open>cb\<close> less than 1500ms after one for a column \<open>ca\<close> cancels
  the commit armed for \<open>ca\<close>, which is never issued.
\<close>

lemma one_commit_timer_when_rerendered:
  assumes idle: "timers s0 = []" and pos: "0 < next_timer_id s0"
    and rendered: "\<forall>e \<in> set evs. rerendered e"
  shows "length (timers (run evs s0)) \<le> 1 \<and>
         (\<forall>a b ca wa cb wb q.
            columnToUpdate (event_info a) = Some (ca, wa) \<and> rerendered a \<and>
            columnToUpdate (event_info b) = Some (cb, wb) \<and> rerendered b \<and> gap b < 1500 \<longrightarrow>
            commits (elapse q (run (evs @ [a, b]) s0)) =
              commits (elapse (gap a) (run evs s0)) @
              (if 1500 \<le> q then [(cb, wb + to_number (deltaOffset (event_info b)))] else []))"
proof -
  have ok: "pending_ok (run evs s0)"
    using idle pos rendered by (intro pending_ok_run no_timers_pending_ok)
  have drop: "commits (elapse q (run (evs @ [a, b]) s0)) =
      commits (elapse (gap a) (run evs s0)) @
      (if 1500 \<le> q then [(cb, wb + to_number (deltaOffset (event_info b)))] else [])"
    if a: "columnToUpdate (event_info a) = Some (ca, wa)" and ra: "rerendered a"
      and b: "columnToUpdate (event_info b) = Some (cb, wb)" and rb: "rerendered b"
      and g: "gap b < 1500"
    for a b ca wa cb wb q
  proof -
    let ?s1 = "run evs s0"
    have oka: "pending_ok (elapse (gap a) ?s1)"
      using ok by (rule pending_ok_elapse)
    have fresh: "timers (elapse (gap a) ?s1) = [] \<or> rerendered a"
      using ra by simp
    from step_armed [OF oka fresh a]
    have aa: "armed ca (wa + to_number (deltaOffset (event_info a))) (step a ?s1)"
      and ca: "commits (step a ?s1) = commits (elapse (gap a) ?s1)"
      by simp_all
    from armed_step [OF aa g rb b]
    have ab: "armed cb (wb + to_number (deltaOffset (event_info b))) (step b (step a ?s1))"
      and cb: "commits (step b (step a ?s1)) = commits (step a ?s1)"
      by simp_all
    have r: "run (evs @ [a, b]) s0 = step b (step a ?s1)"
      by (simp add: run_append)
    show ?thesis
    proof (cases "1500 \<le> q")
      case True
      with armed_elapse_due [OF ab True] ca cb r show ?thesis
        by simp
    next
      case False
      then have "q < 1500" by simp
      from armed_elapse_early [OF ab this] ca cb r False show ?thesis
        by simp
    qed
  qed
  show ?thesis
    using pending_ok_timers [OF ok] drop by blast
qed


section \<open>Claims about the committed width\<close>

lemma example_column_fields:
  "column_id (example_column limits name w) = name"
  "width (example_column limits name w) = w"
  "minWidth (example_column limits name w) = MIN_COLUMN_HEIGHT limits"
  "maxWidth (example_column limits name w) = MAX_COLUMN_HEIGHT limits"
  by (simp_all add: example_column_def defaultColumn_def)

lemma example_alterColumnSize:
  "alterColumnSize ''name'' 1100
     [example_column \<lparr>MIN_COLUMN_HEIGHT = 30, MAX_COLUMN_HEIGHT = 350\<rparr> ''name'' 100] =
     [example_column \<lparr>MIN_COLUMN_HEIGHT = 30, MAX_COLUMN_HEIGHT = 350\<rparr> ''name'' 350]"
  by (simp add: alterColumnSize_def example_column_def defaultColumn_def)

text \<open>
  C2. For every column and every proposed width (the start width plus the offset of the
  drag), the width a commit stores for the column lies within the column's
  \<open>[minWidth, maxWidth]\<close>, also when the proposed width lies outside. The bounds are read
  as a range: \<open>minWidth\<close> is at most \<open>maxWidth\<close>.
\<close>

theorem alterColumnSize_within_bounds:
  assumes "col \<in> set (alterColumnSize cid (start + delta) cols)"
    and "column_id col = cid"
    and "minWidth col \<le> maxWidth col"
  shows "minWidth col \<le> width col \<and> width col \<le> maxWidth col"
proof -
  from assms(1) obtain c where c: "c \<in> set cols"
    and col: "col = (if column_id c = cid
        then c\<lparr>width := min (max (start + delta) (minWidth c)) (maxWidth c)\<rparr> else c)"
    by (auto simp: alterColumnSize_def)
  have "column_id c = cid"
    using col assms(2) by (simp split: if_splits)
  with col have "col = c\<lparr>width := min (max (start + delta) (minWidth c)) (maxWidth c)\<rparr>"
    by simp
  with assms(3) show ?thesis
    by simp
qed

theorem alterColumnSize_within_bounds_witness:
  "example_column \<lparr>MIN_COLUMN_HEIGHT = 30, MAX_COLUMN_HEIGHT = 350\<rparr> ''name'' 350
     \<in> set (alterColumnSize ''name'' (100 + 1000)
          [example_column \<lparr>MIN_COLUMN_HEIGHT = 30, MAX_COLUMN_HEIGHT = 350\<rparr> ''name'' 100]) \<and>
   minWidth (example_column \<lparr>MIN_COLUMN_HEIGHT = 30, MAX_COLUMN_HEIGHT = 350\<rparr> ''name'' 350)
     \<le> width (example_column \<lparr>MIN_COLUMN_HEIGHT = 30, MAX_COLUMN_HEIGHT = 350\<rparr> ''name'' 350) \<and>
   width (example_column \<lparr>MIN_COLUMN_HEIGHT = 30, MAX_COLUMN_HEIGHT = 350\<rparr> ''name'' 350)
     \<le> maxWidth (example_column \<lparr>MIN_COLUMN_HEIGHT = 30, MAX_COLUMN_HEIGHT = 350\<rparr> ''name'' 350)"
proof -
  let ?lim = "\<lparr>MIN_COLUMN_HEIGHT = 30, MAX_COLUMN_HEIGHT = 350\<rparr>"
  have m: "example_column ?lim ''name'' 350
      \<in> set (alterColumnSize ''name'' (100 + 1000) [example_column ?lim ''name'' 100])"
    by (simp add: example_alterColumnSize)
  have i: "column_id (example_column ?lim ''name'' 350) = ''name''"
    by (simp add: example_column_fields)
  have b: "minWidth (example_column ?lim ''name'' 350) \<le> maxWidth (example_column ?lim ''name'' 350)"
    by (simp add: example_column_fields)
  from m alterColumnSize_within_bounds [OF m i b] show ?thesis
    by (intro conjI) simp_all
qed

section \<open>Claims about the render pass\<close>

text \<open>
  C7. On a render pass, a cached column order whose length differs from the number of
  columns of the registry is replaced by the registry's sequence of column ids, and a
  cached order of the same length is left as it is, whatever ids it holds: only the
  lengths are compared.
\<close>

theorem niveling_compares_lengths:
  "(length columnOrder \<noteq> length cols \<longrightarrow>
      niveling_columnOrder cols columnOrder = map (\<lambda>c. Str (column_id c)) cols) \<and>
   (length columnOrder = length cols \<longrightarrow> niveling_columnOrder cols columnOrder = columnOrder)"
  by (simp add: niveling_columnOrder_def getValueOfAllColumnsAsociatedWith_id_def)

theorem niveling_compares_lengths_witness:
  "niveling_columnOrder
     [example_column \<lparr>MIN_COLUMN_HEIGHT = 30, MAX_COLUMN_HEIGHT = 350\<rparr> ''name'' 100,
      example_column \<lparr>MIN_COLUMN_HEIGHT = 30, MAX_COLUMN_HEIGHT = 350\<rparr> ''status'' 100]
     [Str ''name''] = [Str ''name'', Str ''status''] \<and>
   niveling_columnOrder
     [example_column \<lparr>MIN_COLUMN_HEIGHT = 30, MAX_COLUMN_HEIGHT = 350\<rparr> ''name'' 100,
      example_column \<lparr>MIN_COLUMN_HEIGHT = 30, MAX_COLUMN_HEIGHT = 350\<rparr> ''status'' 100]
     [Str ''old'', Str ''gone''] = [Str ''old'', Str ''gone'']"
proof -
  let ?cols = "[example_column \<lparr>MIN_COLUMN_HEIGHT = 30, MAX_COLUMN_HEIGHT = 350\<rparr> ''name'' 100,
      example_column \<lparr>MIN_COLUMN_HEIGHT = 30, MAX_COLUMN_HEIGHT = 350\<rparr> ''status'' 100]"
  have "niveling_columnOrder ?cols [Str ''name''] = map (\<lambda>c. Str (column_id c)) ?cols"
    using niveling_compares_lengths [of "[Str ''name'']" ?cols] by simp
  moreover have "niveling_columnOrder ?cols [Str ''old'', Str ''gone''] = [Str ''old'', Str ''gone'']"
    using niveling_compares_lengths [of "[Str ''old'', Str ''gone'']" ?cols] by simp
  ultimately show ?thesis
    by (simp add: example_column_def)
qed

section \<open>Claims about adding a row\<close>

text \<open>
  C8. For every input string, \<open>handleAddNewRow\<close> calls \<open>addRow\<close> with the input and then
  sets the input state to the empty string, whatever \<open>addRow\<close> does: also when \<open>addRow\<close>
  creates no row and leaves the rows as they are. The input element is emptied as well.
  An Enter keypress in the input does the same as the submit action.
\<close>

theorem handleAddNewRow_resets_input:
  "inputNewRow (snd (handleAddNewRow addRow cols settings s)) = [] \<and>
   addRow_calls (snd (handleAddNewRow addRow cols settings s)) = addRow_calls s @ [inputNewRow s] \<and>
   rows (snd (handleAddNewRow addRow cols settings s)) = addRow (inputNewRow s) cols settings (rows s) \<and>
   (newRowRef s \<noteq> None \<longrightarrow>
      handleAddNewRow addRow cols settings s =
        (None, s\<lparr>inputNewRow := [], newRowRef := Some [],
                 rows := addRow (inputNewRow s) cols settings (rows s),
                 addRow_calls := addRow_calls s @ [inputNewRow s]\<rparr>)) \<and>
   (addRow (inputNewRow s) cols settings (rows s) = rows s \<longrightarrow>
      rows (snd (handleAddNewRow addRow cols settings s)) = rows s \<and>
      inputNewRow (snd (handleAddNewRow addRow cols settings s)) = []) \<and>
   handleKeyDown ''Enter'' addRow cols settings s = handleAddNewRow addRow cols settings s"
  by (auto simp: handleAddNewRow_def handleKeyDown_def Let_def split: option.splits)

theorem handleAddNewRow_resets_input_witness:
  "newRowRef (example_input ''   '') \<noteq> None \<and>
   addRow_by_name (inputNewRow (example_input ''   '')) () () (rows (example_input ''   ''))
     = rows (example_input ''   '') \<and>
   handleAddNewRow addRow_by_name () () (example_input ''   '') =
     (None, \<lparr>inputNewRow = [], newRowRef = Some [], rows = [''first''], addRow_calls = [''   '']\<rparr>) \<and>
   handleKeyDown ''Enter'' addRow_by_name () () (example_input ''task'') =
     (None, \<lparr>inputNewRow = [], newRowRef = Some [], rows = [''first'', ''task''],
             addRow_calls = [''task'']\<rparr>)"
proof -
  have r: "newRowRef (example_input ''   '') \<noteq> None" "newRowRef (example_input ''task'') \<noteq> None"
    by (simp_all add: example_input_def)
  have n: "addRow_by_name (inputNewRow (example_input ''   '')) () () (rows (example_input ''   ''))
      = rows (example_input ''   '')"
    by (simp add: addRow_by_name_def blank_def example_input_def)
  show ?thesis
    using r n
      handleAddNewRow_resets_input [of addRow_by_name "()" "()" "example_input ''   ''"]
      handleAddNewRow_resets_input [of addRow_by_name "()" "()" "example_input ''task''"]
    by (simp add: example_input_def addRow_by_name_def blank_def)
qed


section \<open>Claims about the global filter\<close>

lemma starts_with_iff: "starts_with xs ys \<longleftrightarrow> (\<exists>post. xs = ys @ post)"
  by (induction xs ys rule: starts_with.induct) auto

lemma contains_iff: "contains xs ys \<longleftrightarrow> (\<exists>pre post. xs = pre @ ys @ post)"
proof (induction xs)
  case Nil
  then show ?case by auto
next
  case (Cons x xs)
  show ?case
  proof
    assume "contains (x # xs) ys"
    then consider "starts_with (x # xs) ys" | "contains xs ys"
      by auto
    then show "\<exists>pre post. x # xs = pre @ ys @ post"
    proof cases
      case 1
      then obtain post where "x # xs = ys @ post"
        by (auto simp: starts_with_iff)
      then have "x # xs = [] @ ys @ post"
        by simp
      then show ?thesis
        by blast
    next
      case 2
      then obtain pre post where "xs = pre @ ys @ post"
        using Cons.IH by auto
      then have "x # xs = (x # pre) @ ys @ post"
        by simp
      then show ?thesis
        by blast
    qed
  next
    assume "\<exists>pre post. x # xs = pre @ ys @ post"
    then obtain pre post where eq: "x # xs = pre @ ys @ post"
      by blast
    show "contains (x # xs) ys"
    proof (cases pre)
      case Nil
      with eq have "starts_with (x # xs) ys"
        by (auto simp: starts_with_iff)
      then show ?thesis
        by simp
    next
      case (Cons p pre')
      with eq have "xs = pre' @ ys @ post"
        by simp
      then have "contains xs ys"
        using Cons.IH by blast
      then show ?thesis
        by simp
    qed
  qed
qed

lemma visible_match_iff:
  "list_ex (\<lambda>c. visible c \<and> getColumnCanGlobalFilter c \<and>
                globalDatabaseFilterFn stringify r (column_id c) globalFilter) cols \<longleftrightarrow>
   (\<exists>c \<in> set cols. visible c \<and>
      (\<exists>pre post. map lower_char (cell_text stringify r (column_id c)) =
         pre @ map lower_char globalFilter @ post))"
  by (simp add: list_ex_iff getColumnCanGlobalFilter_def globalDatabaseFilterFn_def contains_iff)

lemma example_lower:
  "map lower_char ''Hello World'' = ''hello world''"
  "map lower_char ''other'' = ''other''"
  "map lower_char ''WORLD'' = ''world''"
  by code_simp+

lemma example_cell_text:
  "cell_text (\<lambda>v. v) (example_row name title) ''title'' = title"
  by (simp add: cell_text_def example_row_def)

lemma example_contains:
  "contains ''hello world'' ''world''" "\<not> contains ''other'' ''world''"
  by simp_all

lemma example_match:
  "globalDatabaseFilterFn (\<lambda>v. v) (example_row ''a.md'' ''Hello World'') ''title'' ''WORLD''"
  "\<not> globalDatabaseFilterFn (\<lambda>v. v) (example_row ''b.md'' ''other'') ''title'' ''WORLD''"
  by (simp_all only: globalDatabaseFilterFn_def example_cell_text example_lower example_contains
      not_False_eq_True)

lemma example_column_title:
  "visible (example_column limits name w)" "column_id (example_column limits name w) = name"
  by (simp_all add: example_column_def)

lemma example_getFilteredRowModel:
  "getFilteredRowModel (\<lambda>v. v)
     [example_column \<lparr>MIN_COLUMN_HEIGHT = 30, MAX_COLUMN_HEIGHT = 350\<rparr> ''title'' 100] ''WORLD''
     [example_row ''a.md'' ''Hello World'', example_row ''b.md'' ''other''] =
   [example_row ''a.md'' ''Hello World'']"
  by (simp add: getFilteredRowModel_def getColumnCanGlobalFilter_def example_match
      example_column_title)

text \<open>
  C4. A row survives the global-filter pass if and only if the text of at least one
  visible column's cell, in lower case, contains the filter text in lower case; with the
  empty filter text every row survives. (With the empty filter text and no visible column
  the two parts cannot both hold; there every row survives.)
\<close>

theorem global_filter_pass:
  "(globalFilter \<noteq> [] \<or> (\<exists>c \<in> set cols. visible c) \<longrightarrow>
      getFilteredRowModel stringify cols globalFilter rs =
        filter
          (\<lambda>r. \<exists>c \<in> set cols. visible c \<and>
             (\<exists>pre post. map lower_char (cell_text stringify r (column_id c)) =
                pre @ map lower_char globalFilter @ post))
          rs) \<and>
   getFilteredRowModel stringify cols [] rs = rs"
proof (intro conjI impI)
  show "getFilteredRowModel stringify cols [] rs = rs"
    by (simp add: getFilteredRowModel_def)
next
  assume a: "globalFilter \<noteq> [] \<or> (\<exists>c \<in> set cols. visible c)"
  show "getFilteredRowModel stringify cols globalFilter rs =
        filter
          (\<lambda>r. \<exists>c \<in> set cols. visible c \<and>
             (\<exists>pre post. map lower_char (cell_text stringify r (column_id c)) =
                pre @ map lower_char globalFilter @ post))
          rs"
  proof (cases "globalFilter = []")
    case False
    then show ?thesis
      by (simp add: getFilteredRowModel_def visible_match_iff)
  next
    case True
    with a obtain c where "c \<in> set cols" "visible c"
      by auto
    moreover have "\<exists>pre post. xs = pre @ map lower_char [] @ post" for xs :: string
      by (intro exI [of _ "[]"] exI [of _ xs]) simp
    ultimately have "\<forall>r \<in> set rs. \<exists>c \<in> set cols. visible c \<and>
        (\<exists>pre post. map lower_char (cell_text stringify r (column_id c)) =
           pre @ map lower_char [] @ post)"
      by blast
    then have all: "filter
          (\<lambda>r. \<exists>c \<in> set cols. visible c \<and>
             (\<exists>pre post. map lower_char (cell_text stringify r (column_id c)) =
                pre @ map lower_char [] @ post))
          rs = rs"
      by (rule filter_True)
    have none: "getFilteredRowModel stringify cols [] rs = rs"
      by (simp add: getFilteredRowModel_def)
    show ?thesis
      unfolding True none using all by (rule sym)
  qed
qed

theorem global_filter_pass_witness:
  "''WORLD'' \<noteq> [] \<and>
   filter
     (\<lambda>r. \<exists>c \<in> set [example_column \<lparr>MIN_COLUMN_HEIGHT = 30, MAX_COLUMN_HEIGHT = 350\<rparr> ''title'' 100].
        visible c \<and>
        (\<exists>pre post. map lower_char (cell_text (\<lambda>v. v) r (column_id c)) =
           pre @ map lower_char ''WORLD'' @ post))
     [example_row ''a.md'' ''Hello World'', example_row ''b.md'' ''other''] =
   [example_row ''a.md'' ''Hello World'']"
proof -
  have ne: "''WORLD'' \<noteq> []"
    by simp
  from global_filter_pass [of "''WORLD''"
      "[example_column \<lparr>MIN_COLUMN_HEIGHT = 30, MAX_COLUMN_HEIGHT = 350\<rparr> ''title'' 100]"
      "\<lambda>v. v" "[example_row ''a.md'' ''Hello World'', example_row ''b.md'' ''other'']"]
  have "getFilteredRowModel (\<lambda>v. v)
      [example_column \<lparr>MIN_COLUMN_HEIGHT = 30, MAX_COLUMN_HEIGHT = 350\<rparr> ''title'' 100] ''WORLD''
      [example_row ''a.md'' ''Hello World'', example_row ''b.md'' ''other''] =
    filter
     (\<lambda>r. \<exists>c \<in> set [example_column \<lparr>MIN_COLUMN_HEIGHT = 30, MAX_COLUMN_HEIGHT = 350\<rparr> ''title'' 100].
        visible c \<and>
        (\<exists>pre post. map lower_char (cell_text (\<lambda>v. v) r (column_id c)) =
           pre @ map lower_char ''WORLD'' @ post))
     [example_row ''a.md'' ''Hello World'', example_row ''b.md'' ''other'']"
    using ne by blast
  then show ?thesis
    using ne by (simp only: example_getFilteredRowModel) simp
qed

end
